theory Spec2Isabelle
  imports Main "HOL-Library.AList"
begin

section \<open>Python values used by the simulator\<close>

text \<open>
  The three classes of \<^verbatim>\<open>CPU.py\<close> keep their state in Python dictionaries. A
  dictionary is modelled as an association list in insertion order with pairwise
  different keys: \<open>d[k]\<close> is \<^const>\<open>map_of\<close>, \<open>d[k] = v\<close> is \<^const>\<open>AList.update\<close>
  (an existing key keeps its place, a new key goes to the end), \<open>d.pop(k)\<close> is
  \<^const>\<open>AList.delete\<close> and \<open>len(d)\<close> is \<^const>\<open>length\<close>. Python integers are
  unbounded, so they are \<^typ>\<open>int\<close>. Strings are \<^typ>\<open>string\<close>: a character is a
  code point from 0 to 255, and text with higher code points is outside the model.
\<close>

datatype error = KeyError string | ValueError | IndexError

text \<open>
  What \<open>Cache.read\<close> can hand back: the tuple \<open>(data, count)\<close> of a cache line,
  a plain integer read from the memory bus, or \<open>None\<close>.
\<close>

datatype pyval = Tuple int int | IntV int | NoneV

text \<open>
  \<open>min(xs, key=f)\<close>: the first element whose key is smallest; \<open>ValueError\<close> on an
  empty sequence.
\<close>

fun min_from :: "('a \<Rightarrow> int) \<Rightarrow> 'a \<Rightarrow> 'a list \<Rightarrow> 'a" where
  "min_from f best [] = best"
| "min_from f best (x # xs) = min_from f (if f x < f best then x else best) xs"

definition py_min :: "('a \<Rightarrow> int) \<Rightarrow> 'a list \<Rightarrow> error + 'a" where
  "py_min f xs = (case xs of [] \<Rightarrow> Inl ValueError | x # rest \<Rightarrow> Inr (min_from f x rest))"

text \<open>
  \<open>xs[i]\<close> on a list: a negative index counts from the end, an index outside the
  list raises \<open>IndexError\<close>.
\<close>

definition list_getitem :: "'a list \<Rightarrow> int \<Rightarrow> error + 'a" where
  "list_getitem xs i =
     (if 0 \<le> i \<and> i < int (length xs) then Inr (xs ! nat i)
      else if i < 0 \<and> - int (length xs) \<le> i then Inr (xs ! nat (int (length xs) + i))
      else Inl IndexError)"

text \<open>\<open>s.split(sep)\<close> with a one-character separator: never an empty list.\<close>

fun split :: "char \<Rightarrow> string \<Rightarrow> string list" where
  "split sep [] = [[]]"
| "split sep (c # cs) =
     (if c = sep then [] # split sep cs
      else (c # hd (split sep cs)) # tl (split sep cs))"

text \<open>
  \<open>int(s)\<close> on a string, base ten. White space at both ends is dropped: tab, line
  feed, vertical tab, form feed, carriage return and space, and the two code points
  133 and 160 that Unicode counts as white space. The separators 28 to 31 are not
  dropped. One sign may follow, then digits, with single underscores allowed between
  digits. A literal of more than 4300 digits (the interpreter's default
  \<open>int_max_str_digits\<close>; signs, underscores and white space do not count, leading
  zeros do) is refused. Every failure is a \<open>ValueError\<close>.
\<close>

definition is_space :: "char \<Rightarrow> bool" where
  "is_space c =
     (let n = (of_char c :: nat) in (9 \<le> n \<and> n \<le> 13) \<or> n = 32 \<or> n = 133 \<or> n = 160)"

definition strip :: "string \<Rightarrow> string" where
  "strip s = rev (dropWhile is_space (rev (dropWhile is_space s)))"

definition digit_val :: "char \<Rightarrow> nat option" where
  "digit_val c =
     (let n = (of_char c :: nat) in if 48 \<le> n \<and> n \<le> 57 then Some (n - 48) else None)"

fun digits :: "bool \<Rightarrow> nat \<Rightarrow> string \<Rightarrow> nat option" where
  "digits after_digit acc [] = (if after_digit then Some acc else None)"
| "digits after_digit acc (c # cs) =
     (if c = CHR ''_'' then (if after_digit then digits False acc cs else None)
      else (case digit_val c of
              None \<Rightarrow> None
            | Some d \<Rightarrow> digits True (10 * acc + d) cs))"

definition max_str_digits :: nat where
  "max_str_digits = 4300"

definition py_int :: "string \<Rightarrow> error + int" where
  "py_int s =
     (case strip s of
        [] \<Rightarrow> Inl ValueError
      | c # cs \<Rightarrow>
          (let body = (if c = CHR ''-'' \<or> c = CHR ''+'' then cs else c # cs) in
           case digits False 0 body of
             None \<Rightarrow> Inl ValueError
           | Some n \<Rightarrow>
               if max_str_digits < length (filter (\<lambda>d. digit_val d \<noteq> None) body)
               then Inl ValueError
               else Inr (if c = CHR ''-'' then - int n else int n)))"

section \<open>MemoryBus\<close>

text \<open>The only field of a \<open>MemoryBus\<close> is the dictionary \<open>data_lines\<close>.\<close>

type_synonym MemoryBus = "(int \<times> int) list"

definition MemoryBus_init :: MemoryBus where
  "MemoryBus_init = []"

definition MemoryBus_read :: "MemoryBus \<Rightarrow> int \<Rightarrow> int option" where
  "MemoryBus_read data_lines address = map_of data_lines address"

definition MemoryBus_write :: "MemoryBus \<Rightarrow> int \<Rightarrow> int \<Rightarrow> MemoryBus" where
  "MemoryBus_write data_lines address data = AList.update address data data_lines"

section \<open>Cache\<close>

text \<open>
  A cache line maps an address to the pair \<open>(data, count)\<close>. The cache owns the
  only reference to its memory bus that the simulator uses, so the bus is a field.
\<close>

type_synonym cache_lines = "(int \<times> int \<times> int) list"

record Cache =
  capacity :: int
  memory_bus :: MemoryBus
  cache_lines :: cache_lines

definition Cache_init :: "int \<Rightarrow> MemoryBus \<Rightarrow> Cache" where
  "Cache_init cap bus = \<lparr>capacity = cap, memory_bus = bus, cache_lines = []\<rparr>"

text \<open>
  Line 72, \<open>min(self.cache_lines.keys(), key=lambda k: self.cache_lines[k][1])\<close>:
  the keys are scanned in dictionary order and compared by the count stored with
  each; the scan runs over the entries, which carry both.
\<close>

definition least_recently_used :: "cache_lines \<Rightarrow> error + int" where
  "least_recently_used ls = map_sum id fst (py_min (\<lambda>(k, d, n). n) ls)"

text \<open>
  Lines 77-78, \<open>for key in self.cache_lines: self.cache_lines[key] = (data, count + 1)\<close>:
  every entry is visited once and keeps its place.
\<close>

definition increment_all :: "cache_lines \<Rightarrow> cache_lines" where
  "increment_all ls = map (\<lambda>(k, d, n). (k, d, n + 1)) ls"

text \<open>Lines 94-96, the same loop guarded by \<open>if key != address\<close>.\<close>

definition increment_others :: "int \<Rightarrow> cache_lines \<Rightarrow> cache_lines" where
  "increment_others address ls =
     map (\<lambda>(k, d, n). if k \<noteq> address then (k, d, n + 1) else (k, d, n)) ls"

text \<open>
  \<open>Cache.read\<close> returns its value together with the cache as the call leaves it.
  The only statement that can raise is \<open>min\<close> on an empty dictionary, before
  anything has been changed.
\<close>

definition Cache_read :: "Cache \<Rightarrow> int \<Rightarrow> error + (pyval \<times> Cache)" where
  "Cache_read c address =
     (case map_of (cache_lines c) address of
        Some (d, n) \<Rightarrow> Inr (Tuple d n, c)
      | None \<Rightarrow>
          (case MemoryBus_read (memory_bus c) address of
             None \<Rightarrow> Inr (NoneV, c)
           | Some data \<Rightarrow>
               (if capacity c \<le> int (length (cache_lines c)) then
                  (case least_recently_used (cache_lines c) of
                     Inl e \<Rightarrow> Inl e
                   | Inr k \<Rightarrow>
                       Inr (IntV data,
                            c\<lparr>cache_lines :=
                                 increment_all
                                   (AList.update address (data, 0)
                                      (AList.delete k (cache_lines c)))\<rparr>))
                else
                  Inr (IntV data,
                       c\<lparr>cache_lines :=
                            increment_all (AList.update address (data, 0) (cache_lines c))\<rparr>))))"

definition Cache_write :: "Cache \<Rightarrow> int \<Rightarrow> int \<Rightarrow> Cache" where
  "Cache_write c address data =
     (let c1 = c\<lparr>memory_bus := MemoryBus_write (memory_bus c) address data\<rparr> in
      if map_of (cache_lines c1) address \<noteq> None then
        c1\<lparr>cache_lines :=
             increment_others address (AList.update address (data, 0) (cache_lines c1))\<rparr>
      else c1)"

section \<open>CPU\<close>

text \<open>
  The fields of \<open>CPU.__init__\<close>, and \<open>printed\<close>: the values that the \<open>CACHE\<close>
  instruction has written to standard output, oldest first.
\<close>

record CPU =
  cache :: Cache
  registers :: "(string \<times> int) list"
  PC :: int
  running :: bool
  instructions :: "string list"
  printed :: "pyval list"

definition CPU_init :: "Cache \<Rightarrow> CPU" where
  "CPU_init c =
     \<lparr>cache = c, registers = [(''R1'', 0), (''R2'', 0), (''R3'', 0)], PC = 0,
      running = True, instructions = [], printed = []\<rparr>"

text \<open>
  An exception leaves the method at once; \<open>Inl (e, s)\<close> is the exception together
  with the state of the CPU at that moment.
\<close>

definition fetch_instruction :: "CPU \<Rightarrow> (error \<times> CPU) + (string option \<times> CPU)" where
  "fetch_instruction s =
     (if PC s < int (length (instructions s)) then
        (case list_getitem (instructions s) (PC s) of
           Inl e \<Rightarrow> Inl (e, s)
         | Inr instruction \<Rightarrow> Inr (Some instruction, s\<lparr>PC := PC s + 1\<rparr>))
      else Inr (None, s))"

definition execute_instruction :: "CPU \<Rightarrow> string \<Rightarrow> (error \<times> CPU) + CPU" where
  "execute_instruction s instruction =
     (let parts = split CHR '','' instruction; opcode = hd parts in
      if opcode = ''HALT'' then Inr (s\<lparr>running := False\<rparr>)
      else if opcode = ''ADDI'' then
        (case parts of
           [_, dest, src, immediate] \<Rightarrow>
             (case map_of (registers s) src of
                None \<Rightarrow> Inl (KeyError src, s)
              | Some x \<Rightarrow>
                  (case py_int immediate of
                     Inl e \<Rightarrow> Inl (e, s)
                   | Inr i \<Rightarrow> Inr (s\<lparr>registers := AList.update dest (x + i) (registers s)\<rparr>)))
         | _ \<Rightarrow> Inl (ValueError, s))
      else if opcode = ''ADD'' then
        (case parts of
           [_, dest, src1, src2] \<Rightarrow>
             (case map_of (registers s) src1 of
                None \<Rightarrow> Inl (KeyError src1, s)
              | Some x \<Rightarrow>
                  (case map_of (registers s) src2 of
                     None \<Rightarrow> Inl (KeyError src2, s)
                   | Some y \<Rightarrow> Inr (s\<lparr>registers := AList.update dest (x + y) (registers s)\<rparr>)))
         | _ \<Rightarrow> Inl (ValueError, s))
      else if opcode = ''J'' then
        (case parts of
           [_, address] \<Rightarrow>
             (case py_int address of
                Inl e \<Rightarrow> Inl (e, s)
              | Inr a \<Rightarrow> Inr (s\<lparr>PC := a\<rparr>))
         | _ \<Rightarrow> Inl (ValueError, s))
      else if opcode = ''CACHE'' then
        (case parts of
           [_, address] \<Rightarrow>
             (case py_int address of
                Inl e \<Rightarrow> Inl (e, s)
              | Inr a \<Rightarrow>
                  (case Cache_read (cache s) a of
                     Inl e \<Rightarrow> Inl (e, s)
                   | Inr (data, c) \<Rightarrow> Inr (s\<lparr>cache := c, printed := printed s @ [data]\<rparr>)))
         | _ \<Rightarrow> Inl (ValueError, s))
      else Inr s)"

text \<open>
  \<open>run\<close> is a \<open>while\<close> loop that a jump can keep going for ever, so it is a partial
  function: \<open>None\<close> means that the loop does not return. \<open>if instruction:\<close> is
  Python's truth test, false for \<open>None\<close> and for the empty string.
\<close>

partial_function (option) run :: "CPU \<Rightarrow> ((error \<times> CPU) + CPU) option" where
  "run s =
     (if running s then
        (case fetch_instruction s of
           Inl e \<Rightarrow> Some (Inl e)
         | Inr (None, s1) \<Rightarrow> Some (Inr s1)
         | Inr (Some instruction, s1) \<Rightarrow>
             (if instruction \<noteq> [] then
                (case execute_instruction s1 instruction of
                   Inl e \<Rightarrow> Some (Inl e)
                 | Inr s2 \<Rightarrow> run s2)
              else Some (Inr s1)))
      else Some (Inr s))"

section \<open>Sequences of cache operations\<close>

text \<open>
  The states a cache can reach are those produced by calling \<open>read\<close> and \<open>write\<close>
  one after the other; a call that raises ends the sequence.
\<close>

datatype cache_op = Read int | Write int int

fun apply_op :: "Cache \<Rightarrow> cache_op \<Rightarrow> error + Cache" where
  "apply_op c (Read a) = map_sum id snd (Cache_read c a)"
| "apply_op c (Write a v) = Inr (Cache_write c a v)"

fun apply_ops :: "Cache \<Rightarrow> cache_op list \<Rightarrow> error + Cache" where
  "apply_ops c [] = Inr c"
| "apply_ops c (x # xs) = (case apply_op c x of Inl e \<Rightarrow> Inl e | Inr c1 \<Rightarrow> apply_ops c1 xs)"

text \<open>
  Coherence of a cache with its memory bus: every cache line holds the value that
  the bus holds at the same address.
\<close>

definition coherent :: "Cache \<Rightarrow> bool" where
  "coherent c =
     list_all (\<lambda>(k, d, n). MemoryBus_read (memory_bus c) k = Some d) (cache_lines c)"

section \<open>Facts about the dictionary operations\<close>

lemmas cache_eval = Cache_read_def Cache_write_def Cache_init_def MemoryBus_read_def
  MemoryBus_write_def least_recently_used_def py_min_def increment_all_def
  increment_others_def Let_def

lemmas cpu_eval = fetch_instruction_def list_getitem_def execute_instruction_def
  CPU_init_def py_int_def strip_def is_space_def digit_val_def max_str_digits_def
  Let_def

lemma map_of_increment_all:
  "map_of (increment_all ls) k = map_option (\<lambda>(d, n). (d, n + 1)) (map_of ls k)"
  by (induction ls) (auto simp: increment_all_def)

lemma map_of_increment_others:
  "map_of (increment_others a ls) k =
     (if k = a then map_of ls k else map_option (\<lambda>(d, n). (d, n + 1)) (map_of ls k))"
  by (induction ls) (auto simp: increment_others_def)

lemma keys_increment_all: "map fst (increment_all ls) = map fst ls"
  by (induction ls) (auto simp: increment_all_def)

lemma keys_increment_others: "map fst (increment_others a ls) = map fst ls"
  by (induction ls) (auto simp: increment_others_def)

lemma length_increment_all: "length (increment_all ls) = length ls"
  by (simp add: increment_all_def)

lemma length_update_fresh:
  "k \<notin> fst ` set al \<Longrightarrow> length (AList.update k v al) = Suc (length al)"
  by (induction al) auto

lemma length_delete_less:
  assumes "k \<in> fst ` set al"
  shows "length (AList.delete k al) < length al"
proof -
  from assms obtain v where "(k, v) \<in> set al" by auto
  then show ?thesis
    unfolding AList.delete_eq by (rule length_filter_less) simp
qed

subsection \<open>The eviction candidate\<close>

lemma min_from_mem: "min_from f b xs \<in> set (b # xs)"
  by (induction xs arbitrary: b) (auto split: if_splits)

lemma min_from_le_start: "f (min_from f b xs) \<le> f b"
proof (induction xs arbitrary: b)
  case Nil
  then show ?case by simp
next
  case (Cons x xs)
  have "f (min_from f (if f x < f b then x else b) xs) \<le> f (if f x < f b then x else b)"
    by (rule Cons.IH)
  then show ?case by (simp split: if_splits)
qed

lemma min_from_le: "y \<in> set (b # xs) \<Longrightarrow> f (min_from f b xs) \<le> f y"
proof (induction xs arbitrary: b)
  case Nil
  then show ?case by simp
next
  case (Cons x xs)
  let ?b = "if f x < f b then x else b"
  show ?case
  proof (cases "y \<in> set xs")
    case True
    then show ?thesis using Cons.IH [of ?b] by simp
  next
    case False
    with Cons.prems have "y = b \<or> y = x" by auto
    moreover have "f (min_from f ?b xs) \<le> f ?b" by (rule min_from_le_start)
    ultimately show ?thesis by (auto split: if_splits)
  qed
qed

lemma least_recently_used_empty: "least_recently_used [] = Inl ValueError"
  by (simp add: least_recently_used_def py_min_def)

lemma least_recently_used_key:
  assumes "ls \<noteq> []"
  shows "\<exists>k. least_recently_used ls = Inr k \<and> k \<in> fst ` set ls"
proof -
  from assms obtain x rest where ls: "ls = x # rest" by (cases ls) auto
  have "min_from (\<lambda>(k, d, n). n) x rest \<in> set ls"
    unfolding ls by (rule min_from_mem)
  then show ?thesis
    by (auto simp: least_recently_used_def py_min_def ls)
qed

text \<open>
  Whatever the cache holds, the key that \<open>Cache.read\<close> pops carries a smallest
  count among the cache lines.
\<close>

lemma least_recently_used_minimal:
  assumes "least_recently_used ls = Inr k"
  shows "\<exists>d n. (k, d, n) \<in> set ls \<and> (\<forall>(k', d', n') \<in> set ls. n \<le> n')"
proof -
  from assms obtain x rest where ls: "ls = x # rest"
    by (cases ls) (auto simp: least_recently_used_def py_min_def)
  let ?f = "\<lambda>(k :: int, d :: int, n :: int). n"
  let ?m = "min_from ?f x rest"
  from assms have k: "k = fst ?m"
    by (simp add: least_recently_used_def py_min_def ls)
  have mem: "?m \<in> set ls" unfolding ls by (rule min_from_mem)
  have le: "\<And>y. y \<in> set ls \<Longrightarrow> ?f ?m \<le> ?f y"
    unfolding ls by (rule min_from_le)
  obtain d n where m: "?m = (k, d, n)" using k by (cases ?m) auto
  have "(k, d, n) \<in> set ls" using mem m by simp
  moreover have "\<forall>(k', d', n') \<in> set ls. n \<le> n'"
    using le m by fastforce
  ultimately show ?thesis by blast
qed

section \<open>Cache.read\<close>

lemma Cache_read_hit:
  "map_of (cache_lines c) a = Some (d, n) \<Longrightarrow> Cache_read c a = Inr (Tuple d n, c)"
  by (simp add: Cache_read_def)

lemma Cache_read_miss_full:
  assumes "map_of (cache_lines c) a = None"
    and "MemoryBus_read (memory_bus c) a = Some v"
    and "capacity c \<le> int (length (cache_lines c))"
    and "least_recently_used (cache_lines c) = Inr k"
  shows "Cache_read c a =
           Inr (IntV v, c\<lparr>cache_lines :=
                  increment_all (AList.update a (v, 0) (AList.delete k (cache_lines c)))\<rparr>)"
  using assms by (simp add: Cache_read_def)

lemma Cache_read_miss_room:
  assumes "map_of (cache_lines c) a = None"
    and "MemoryBus_read (memory_bus c) a = Some v"
    and "\<not> capacity c \<le> int (length (cache_lines c))"
  shows "Cache_read c a =
           Inr (IntV v, c\<lparr>cache_lines := increment_all (AList.update a (v, 0) (cache_lines c))\<rparr>)"
  using assms by (simp add: Cache_read_def)

text \<open>
  C1: on a miss in a full cache, \<open>Cache.read\<close> pops exactly one line, the first one
  with the \<^emph>\<open>smallest\<close> count, where the claim asks for a largest one. With capacity
  2 and the bus holding 1, 2 and 3, reading 1 and then 2 leaves the counts 2 and 1;
  reading 3 then evicts address 2 (count 1) and keeps address 1 (count 2).
\<close>

theorem C1_evicts_minimum_counter:
  "apply_ops (Cache_init 2 [(1, 10), (2, 20), (3, 30)]) [Read 1, Read 2] =
     Inr \<lparr>capacity = 2, memory_bus = [(1, 10), (2, 20), (3, 30)],
          cache_lines = [(1, 10, 2), (2, 20, 1)]\<rparr>
   \<and> least_recently_used [(1, 10, 2), (2, 20, 1)] = Inr 2
   \<and> Cache_read \<lparr>capacity = 2, memory_bus = [(1, 10), (2, 20), (3, 30)],
                  cache_lines = [(1, 10, 2), (2, 20, 1)]\<rparr> 3 =
     Inr (IntV 30, \<lparr>capacity = 2, memory_bus = [(1, 10), (2, 20), (3, 30)],
                    cache_lines = [(1, 10, 3), (3, 30, 1)]\<rparr>)"
  by (simp add: cache_eval)

text \<open>
  C2: on a hit, \<open>Cache.read\<close> returns the whole cache line, the tuple
  \<open>(data, count)\<close>, and changes no count: after reading 1 and 2, reading 1 again
  returns \<open>(42, 2)\<close> and leaves the counts 2 and 1 where the claim expects the
  value 42 and the counts 0 and 2.
\<close>

theorem C2_read_hit_returns_line:
  "apply_ops (Cache_init 4 [(1, 42), (2, 7)]) [Read 1, Read 2] =
     Inr \<lparr>capacity = 4, memory_bus = [(1, 42), (2, 7)],
          cache_lines = [(1, 42, 2), (2, 7, 1)]\<rparr>
   \<and> Cache_read \<lparr>capacity = 4, memory_bus = [(1, 42), (2, 7)],
                  cache_lines = [(1, 42, 2), (2, 7, 1)]\<rparr> 1 =
     Inr (Tuple 42 2, \<lparr>capacity = 4, memory_bus = [(1, 42), (2, 7)],
                       cache_lines = [(1, 42, 2), (2, 7, 1)]\<rparr>)"
  by (simp add: cache_eval)

text \<open>
  The first read of scenario A (capacity 1, the bus holding 42 at address 1): the
  new line ends the call with count 1, not 0, because the loop of lines 77-78 runs
  over all lines after the insertion.
\<close>

theorem C3_new_entry_counter_counterexample:
  "map_of (cache_lines (Cache_init 1 [(1, 42), (2, 7)])) 1 = None
   \<and> MemoryBus_read (memory_bus (Cache_init 1 [(1, 42), (2, 7)])) 1 = Some 42
   \<and> Cache_read (Cache_init 1 [(1, 42), (2, 7)]) 1 =
       Inr (IntV 42, \<lparr>capacity = 1, memory_bus = [(1, 42), (2, 7)],
                      cache_lines = [(1, 42, 1)]\<rparr>)
   \<and> map_of [(1, 42, 1)] (1::int) \<noteq> Some (42::int, 0::int)"
  by (simp add: cache_eval)

text \<open>
  C3, as the code has it: a miss on an address that the bus holds (in a cache of
  positive capacity) returns the value and leaves the address resident with count
  exactly 1. Every other line present afterwards was present before with the same
  value and a count one lower, and every other line present before is still there
  with its count raised by 1, unless it is the one line evicted from a full cache.
  The bus and the capacity do not change.
\<close>

theorem C3_read_miss_inserts:
  assumes miss: "map_of (cache_lines c) a = None"
    and bus: "MemoryBus_read (memory_bus c) a = Some v"
    and cap: "0 < capacity c"
  shows "\<exists>c'. Cache_read c a = Inr (IntV v, c')
           \<and> map_of (cache_lines c') a = Some (v, 1)
           \<and> (\<forall>k d n. k \<noteq> a \<and> map_of (cache_lines c') k = Some (d, n)
                 \<longrightarrow> map_of (cache_lines c) k = Some (d, n - 1))
           \<and> (\<forall>k d n. k \<noteq> a \<and> map_of (cache_lines c) k = Some (d, n)
                 \<longrightarrow> map_of (cache_lines c') k = Some (d, n + 1)
                     \<or> (capacity c \<le> int (length (cache_lines c))
                         \<and> least_recently_used (cache_lines c) = Inr k))
           \<and> memory_bus c' = memory_bus c \<and> capacity c' = capacity c"
proof (cases "capacity c \<le> int (length (cache_lines c))")
  case True
  with cap have "cache_lines c \<noteq> []" by auto
  then obtain k where k: "least_recently_used (cache_lines c) = Inr k"
    using least_recently_used_key by blast
  let ?ls = "increment_all (AList.update a (v, 0) (AList.delete k (cache_lines c)))"
  have r: "Cache_read c a = Inr (IntV v, c\<lparr>cache_lines := ?ls\<rparr>)"
    using miss bus True k by (rule Cache_read_miss_full)
  have new: "map_of ?ls a = Some (v, 1)"
    by (simp add: map_of_increment_all update_conv')
  have other: "map_of ?ls j = (if j = k then None
                 else map_option (\<lambda>(d, n). (d, n + 1)) (map_of (cache_lines c) j))"
    if "j \<noteq> a" for j
    using that by (simp add: map_of_increment_all update_conv' delete_conv')
  have pre: "map_of (cache_lines c) j = Some (d, n - 1)"
    if "j \<noteq> a" and "map_of ?ls j = Some (d, n)" for j d n
    using that other [of j] by (auto split: if_splits)
  have post: "map_of ?ls j = Some (d, n + 1) \<or> least_recently_used (cache_lines c) = Inr j"
    if "j \<noteq> a" and "map_of (cache_lines c) j = Some (d, n)" for j d n
    using that other [of j] k by (auto split: if_splits)
  show ?thesis
    using r new pre post True by (intro exI [of _ "c\<lparr>cache_lines := ?ls\<rparr>"]) auto
next
  case False
  let ?ls = "increment_all (AList.update a (v, 0) (cache_lines c))"
  have r: "Cache_read c a = Inr (IntV v, c\<lparr>cache_lines := ?ls\<rparr>)"
    using miss bus False by (rule Cache_read_miss_room)
  have new: "map_of ?ls a = Some (v, 1)"
    by (simp add: map_of_increment_all update_conv')
  have other: "map_of ?ls j = map_option (\<lambda>(d, n). (d, n + 1)) (map_of (cache_lines c) j)"
    if "j \<noteq> a" for j
    using that by (simp add: map_of_increment_all update_conv')
  have pre: "map_of (cache_lines c) j = Some (d, n - 1)"
    if "j \<noteq> a" and "map_of ?ls j = Some (d, n)" for j d n
    using that other [of j] by auto
  have post: "map_of ?ls j = Some (d, n + 1)"
    if "j \<noteq> a" and "map_of (cache_lines c) j = Some (d, n)" for j d n
    using that other [of j] by auto
  show ?thesis
    using r new pre post by (intro exI [of _ "c\<lparr>cache_lines := ?ls\<rparr>"]) auto
qed

theorem C3_read_miss_inserts_witness:
  "map_of [(1, 10, 2), (2, 20, 1)] (3::int) = (None :: (int \<times> int) option)
   \<and> MemoryBus_read [(1, 10), (2, 20), (3, 30)] 3 = Some 30
   \<and> (\<exists>c'. Cache_read \<lparr>capacity = 2, memory_bus = [(1, 10), (2, 20), (3, 30)],
                         cache_lines = [(1, 10, 2), (2, 20, 1)]\<rparr> 3 = Inr (IntV 30, c')
          \<and> map_of (cache_lines c') 3 = Some (30, 1)
          \<and> (map_of (cache_lines c') 1 = Some (10, 3)
               \<or> least_recently_used [(1, 10, 2), (2, 20, 1)] = Inr 1))"
proof -
  let ?c = "\<lparr>capacity = 2, memory_bus = [(1, 10), (2, 20), (3, 30)],
             cache_lines = [(1, 10, 2), (2, 20, 1)]\<rparr>"
  have h1: "map_of (cache_lines ?c) 3 = None" by simp
  have h2: "MemoryBus_read (memory_bus ?c) 3 = Some 30" by (simp add: MemoryBus_read_def)
  have h3: "0 < capacity ?c" by simp
  have old: "(1::int) \<noteq> 3 \<and> map_of (cache_lines ?c) 1 = Some (10, 2)" by simp
  from C3_read_miss_inserts [OF h1 h2 h3] obtain c' where
    c': "Cache_read ?c 3 = Inr (IntV 30, c')" "map_of (cache_lines c') 3 = Some (30, 1)"
    "\<forall>k d n. k \<noteq> 3 \<and> map_of (cache_lines ?c) k = Some (d, n)
        \<longrightarrow> map_of (cache_lines c') k = Some (d, n + 1)
            \<or> (capacity ?c \<le> int (length (cache_lines ?c))
                \<and> least_recently_used (cache_lines ?c) = Inr k)"
    by blast
  from c'(3) old have "map_of (cache_lines c') 1 = Some (10, 2 + 1)
      \<or> (capacity ?c \<le> int (length (cache_lines ?c))
                \<and> least_recently_used (cache_lines ?c) = Inr 1)"
    by blast
  then have "map_of (cache_lines c') 1 = Some (10, 3)
      \<or> least_recently_used [(1, 10, 2), (2, 20, 1)] = Inr 1" by auto
  with c'(1,2) h1 h2 show ?thesis by auto
qed

text \<open>
  C8: when the address is neither in the cache nor on the memory bus, \<open>Cache.read\<close>
  returns \<open>None\<close> without raising and leaves the cache exactly as it was: no key,
  value or count changes and no entry is created.
\<close>

theorem C8_read_absent_unchanged:
  assumes "map_of (cache_lines c) a = None"
    and "MemoryBus_read (memory_bus c) a = None"
  shows "Cache_read c a = Inr (NoneV, c)"
  using assms by (simp add: Cache_read_def)

theorem C8_read_absent_unchanged_witness:
  "map_of (cache_lines (Cache_init 4 [(1, 42)])) 99 = None
   \<and> MemoryBus_read (memory_bus (Cache_init 4 [(1, 42)])) 99 = None
   \<and> Cache_read (Cache_init 4 [(1, 42)]) 99 = Inr (NoneV, Cache_init 4 [(1, 42)])"
proof -
  have h1: "map_of (cache_lines (Cache_init 4 [(1, 42)])) 99 = None"
    by (simp add: Cache_init_def)
  have h2: "MemoryBus_read (memory_bus (Cache_init 4 [(1, 42)])) 99 = None"
    by (simp add: Cache_init_def MemoryBus_read_def)
  show ?thesis using h1 h2 C8_read_absent_unchanged [OF h1 h2] by simp
qed

section \<open>Cache.write\<close>

lemma Cache_write_capacity: "capacity (Cache_write c a v) = capacity c"
  by (simp add: Cache_write_def Let_def)

lemma Cache_write_bus:
  "map_of (memory_bus (Cache_write c a v)) k = ((map_of (memory_bus c))(a \<mapsto> v)) k"
  by (simp add: Cache_write_def Let_def MemoryBus_write_def update_conv')

lemma Cache_write_cold:
  "map_of (cache_lines c) a = None \<Longrightarrow> cache_lines (Cache_write c a v) = cache_lines c"
  by (simp add: Cache_write_def Let_def)

lemma Cache_write_hit:
  "map_of (cache_lines c) a \<noteq> None \<Longrightarrow>
   cache_lines (Cache_write c a v) =
     increment_others a (AList.update a (v, 0) (cache_lines c))"
  by (auto simp: Cache_write_def Let_def)

lemma Cache_write_keys:
  "map fst (cache_lines (Cache_write c a v)) = map fst (cache_lines c)"
proof (cases "map_of (cache_lines c) a")
  case None
  then show ?thesis by (simp add: Cache_write_cold)
next
  case (Some e)
  then have "a \<in> fst ` set (cache_lines c)"
    by (meson domI domIff map_of_eq_None_iff)
  then have "map fst (AList.update a (v, 0) (cache_lines c)) = map fst (cache_lines c)"
    by (simp add: update_keys)
  with Some show ?thesis
    by (simp add: Cache_write_hit keys_increment_others)
qed

lemma Cache_write_lookup:
  "map_of (cache_lines (Cache_write c a v)) k =
     (if map_of (cache_lines c) a = None then map_of (cache_lines c) k
      else if k = a then Some (v, 0)
      else map_option (\<lambda>(d, n). (d, n + 1)) (map_of (cache_lines c) k))"
  by (auto simp: Cache_write_cold Cache_write_hit map_of_increment_others update_conv')

text \<open>
  C6: \<open>Cache.write(a, v)\<close> always writes through, so that the bus holds \<open>v\<close> at
  \<open>a\<close> afterwards. When \<open>a\<close> is in the cache its line becomes \<open>(v, 0)\<close>, every other
  line keeps its value with its count raised by 1, and the keys stay as they were.
  When \<open>a\<close> is not in the cache the cache lines are left exactly as they were.
\<close>

theorem C6_write_through:
  "MemoryBus_read (memory_bus (Cache_write c a v)) a = Some v
   \<and> (map_of (cache_lines c) a \<noteq> None \<longrightarrow>
        map_of (cache_lines (Cache_write c a v)) a = Some (v, 0)
        \<and> (\<forall>k. k \<noteq> a \<longrightarrow>
              map_of (cache_lines (Cache_write c a v)) k =
                map_option (\<lambda>(d, n). (d, n + 1)) (map_of (cache_lines c) k))
        \<and> map fst (cache_lines (Cache_write c a v)) = map fst (cache_lines c))
   \<and> (map_of (cache_lines c) a = None \<longrightarrow>
        cache_lines (Cache_write c a v) = cache_lines c)"
proof -
  have bus: "MemoryBus_read (memory_bus (Cache_write c a v)) a = Some v"
    by (simp add: MemoryBus_read_def Cache_write_bus)
  have cold: "map_of (cache_lines c) a = None \<longrightarrow>
                cache_lines (Cache_write c a v) = cache_lines c"
    by (simp add: Cache_write_cold)
  have touched: "map_of (cache_lines c) a \<noteq> None \<longrightarrow>
                   map_of (cache_lines (Cache_write c a v)) a = Some (v, 0)"
    by (simp add: Cache_write_lookup)
  have others: "map_of (cache_lines c) a \<noteq> None \<longrightarrow>
                  (\<forall>k. k \<noteq> a \<longrightarrow>
                     map_of (cache_lines (Cache_write c a v)) k =
                       map_option (\<lambda>(d, n). (d, n + 1)) (map_of (cache_lines c) k))"
    by (auto simp: Cache_write_lookup)
  have keys: "map fst (cache_lines (Cache_write c a v)) = map fst (cache_lines c)"
    by (rule Cache_write_keys)
  from bus cold touched others keys show ?thesis by blast
qed

theorem C6_write_through_witness:
  "map_of [(1, 42, 2), (2, 7, 1)] (2::int) \<noteq> (None :: (int \<times> int) option)
   \<and> MemoryBus_read (memory_bus (Cache_write
          \<lparr>capacity = 4, memory_bus = [(1, 42), (2, 7)],
           cache_lines = [(1, 42, 2), (2, 7, 1)]\<rparr> 2 9)) 2 = Some 9
   \<and> map_of (cache_lines (Cache_write
          \<lparr>capacity = 4, memory_bus = [(1, 42), (2, 7)],
           cache_lines = [(1, 42, 2), (2, 7, 1)]\<rparr> 2 9)) 2 = Some (9, 0)
   \<and> map_of (cache_lines (Cache_write
          \<lparr>capacity = 4, memory_bus = [(1, 42), (2, 7)],
           cache_lines = [(1, 42, 2), (2, 7, 1)]\<rparr> 2 9)) 1 = Some (42, 3)
   \<and> map_of [(1, 42, 2), (2, 7, 1)] (5::int) = (None :: (int \<times> int) option)
   \<and> MemoryBus_read (memory_bus (Cache_write
          \<lparr>capacity = 4, memory_bus = [(1, 42), (2, 7)],
           cache_lines = [(1, 42, 2), (2, 7, 1)]\<rparr> 5 9)) 5 = Some 9
   \<and> cache_lines (Cache_write
          \<lparr>capacity = 4, memory_bus = [(1, 42), (2, 7)],
           cache_lines = [(1, 42, 2), (2, 7, 1)]\<rparr> 5 9) = [(1, 42, 2), (2, 7, 1)]"
proof -
  let ?c = "\<lparr>capacity = 4, memory_bus = [(1, 42), (2, 7)],
             cache_lines = [(1, 42, 2), (2, 7, 1)]\<rparr>"
  have hit: "map_of (cache_lines ?c) 2 \<noteq> None" by simp
  have cold: "map_of (cache_lines ?c) 5 = None" by simp
  have other: "(1::int) \<noteq> 2" by simp
  from C6_write_through [of ?c 2 9] hit other
  have "MemoryBus_read (memory_bus (Cache_write ?c 2 9)) 2 = Some 9
      \<and> map_of (cache_lines (Cache_write ?c 2 9)) 2 = Some (9, 0)
      \<and> map_of (cache_lines (Cache_write ?c 2 9)) 1 =
          map_option (\<lambda>(d, n). (d, n + 1)) (map_of (cache_lines ?c) 1)"
    by blast
  moreover from C6_write_through [of ?c 5 9] cold
  have "MemoryBus_read (memory_bus (Cache_write ?c 5 9)) 5 = Some 9
      \<and> cache_lines (Cache_write ?c 5 9) = cache_lines ?c"
    by blast
  ultimately show ?thesis by simp
qed

section \<open>Invariants of the reachable cache states\<close>

subsection \<open>The capacity bound\<close>

lemma Cache_read_bounded:
  assumes cap: "0 < capacity c"
    and len: "int (length (cache_lines c)) \<le> capacity c"
  shows "\<exists>r c'. Cache_read c a = Inr (r, c') \<and> capacity c' = capacity c
           \<and> int (length (cache_lines c')) \<le> capacity c"
proof (cases "map_of (cache_lines c) a")
  case (Some e)
  then show ?thesis using len by (cases e) (simp add: Cache_read_hit)
next
  case miss: None
  then have fresh: "a \<notin> fst ` set (cache_lines c)"
    by (simp add: map_of_eq_None_iff)
  show ?thesis
  proof (cases "MemoryBus_read (memory_bus c) a")
    case None
    then show ?thesis using miss len by (simp add: Cache_read_def)
  next
    case (Some v)
    show ?thesis
    proof (cases "capacity c \<le> int (length (cache_lines c))")
      case True
      with cap have "cache_lines c \<noteq> []" by auto
      then obtain k where k: "least_recently_used (cache_lines c) = Inr k"
        and mem: "k \<in> fst ` set (cache_lines c)"
        using least_recently_used_key by blast
      have "a \<notin> fst ` set (AList.delete k (cache_lines c))"
        using fresh by (auto simp: AList.delete_eq)
      then have "length (AList.update a (v, 0) (AList.delete k (cache_lines c)))
                   = Suc (length (AList.delete k (cache_lines c)))"
        by (simp add: length_update_fresh)
      also have "\<dots> \<le> length (cache_lines c)"
        using length_delete_less [OF mem] by simp
      finally show ?thesis
        using len by (simp add: Cache_read_miss_full [OF miss Some True k] length_increment_all)
    next
      case False
      have "length (AList.update a (v, 0) (cache_lines c)) = Suc (length (cache_lines c))"
        using fresh by (simp add: length_update_fresh)
      then show ?thesis
        using False by (simp add: Cache_read_miss_room [OF miss Some False] length_increment_all)
    qed
  qed
qed

lemma apply_ops_bounded:
  assumes "0 < capacity c" and "int (length (cache_lines c)) \<le> capacity c"
  shows "\<exists>c'. apply_ops c ops = Inr c' \<and> capacity c' = capacity c
           \<and> int (length (cache_lines c')) \<le> capacity c"
  using assms
proof (induction ops arbitrary: c)
  case Nil
  then show ?case by simp
next
  case (Cons x xs)
  have "\<exists>c1. apply_op c x = Inr c1 \<and> capacity c1 = capacity c
          \<and> int (length (cache_lines c1)) \<le> capacity c"
  proof (cases x)
    case (Read a)
    from Cache_read_bounded [OF Cons.prems, of a] show ?thesis
      by (auto simp: Read)
  next
    case (Write a v)
    have "length (cache_lines (Cache_write c a v)) = length (cache_lines c)"
      using arg_cong [OF Cache_write_keys, of length c a v] by simp
    then show ?thesis using Cons.prems by (simp add: Write Cache_write_capacity)
  qed
  then obtain c1 where c1: "apply_op c x = Inr c1" "capacity c1 = capacity c"
    "int (length (cache_lines c1)) \<le> capacity c" by blast
  from Cons.IH [of c1] c1 Cons.prems show ?case by simp
qed

text \<open>
  C7: a cache built with a positive capacity never raises, whatever sequence of
  \<open>read\<close> and \<open>write\<close> calls follows its construction, and in every state it reaches
  the number of cache lines is at most the capacity, which never changes.
\<close>

theorem C7_size_bounded:
  assumes "0 < cap"
  shows "\<exists>c'. apply_ops (Cache_init cap bus) ops = Inr c' \<and> capacity c' = cap
           \<and> int (length (cache_lines c')) \<le> capacity c'"
  using apply_ops_bounded [of "Cache_init cap bus" ops] assms
  by (auto simp: Cache_init_def)

theorem C7_size_bounded_witness:
  "(0::int) < 2
   \<and> (\<exists>c'. apply_ops (Cache_init 2 [(1, 10), (2, 20), (3, 30)])
               [Read 1, Read 2, Write 1 11, Read 3, Read 2] = Inr c'
          \<and> capacity c' = 2 \<and> int (length (cache_lines c')) \<le> capacity c')"
proof -
  have h: "(0::int) < 2" by simp
  show ?thesis using h C7_size_bounded [OF h] by blast
qed

subsection \<open>Coherence with the memory bus\<close>

lemma coherent_iff:
  assumes "distinct (map fst (cache_lines c))"
  shows "coherent c \<longleftrightarrow>
           (\<forall>k d n. map_of (cache_lines c) k = Some (d, n)
              \<longrightarrow> map_of (memory_bus c) k = Some d)"
  using assms by (auto simp: coherent_def list_all_iff MemoryBus_read_def)

lemma Cache_write_coherent:
  assumes d: "distinct (map fst (cache_lines c))" and co: "coherent c"
  shows "distinct (map fst (cache_lines (Cache_write c a v))) \<and> coherent (Cache_write c a v)"
proof -
  let ?c = "Cache_write c a v"
  have d': "distinct (map fst (cache_lines ?c))"
    using d by (simp add: Cache_write_keys)
  have old: "map_of (cache_lines c) k = Some (d, n) \<Longrightarrow> map_of (memory_bus c) k = Some d"
    for k d n
    using co coherent_iff [OF d] by blast
  have "map_of (memory_bus ?c) k = Some e" if "map_of (cache_lines ?c) k = Some (e, n)" for k e n
  proof (cases "k = a")
    case True
    show ?thesis
    proof (cases "map_of (cache_lines c) a")
      case None
      with that True show ?thesis by (simp add: Cache_write_lookup)
    next
      case (Some x)
      with that True have "e = v" by (simp add: Cache_write_lookup)
      with True show ?thesis by (simp add: Cache_write_bus)
    qed
  next
    case False
    with that have "\<exists>m. map_of (cache_lines c) k = Some (e, m)"
      by (auto simp: Cache_write_lookup split: if_splits)
    then show ?thesis using old False by (auto simp: Cache_write_bus)
  qed
  then show ?thesis using d' coherent_iff [OF d'] by blast
qed

lemma Cache_read_coherent:
  assumes d: "distinct (map fst (cache_lines c))" and co: "coherent c"
    and r: "Cache_read c a = Inr (x, c')"
  shows "distinct (map fst (cache_lines c')) \<and> coherent c'"
proof -
  have old: "map_of (cache_lines c) k = Some (d, n) \<Longrightarrow> map_of (memory_bus c) k = Some d"
    for k d n
    using co coherent_iff [OF d] by blast
  consider (same) "c' = c"
    | (ins) v ls where "MemoryBus_read (memory_bus c) a = Some v"
        "c' = c\<lparr>cache_lines := increment_all (AList.update a (v, 0) ls)\<rparr>"
        "ls = cache_lines c \<or> (\<exists>k. ls = AList.delete k (cache_lines c))"
    using r by (auto simp: Cache_read_def split: option.splits if_splits sum.splits)
  then show ?thesis
  proof cases
    case same
    then show ?thesis using d co by simp
  next
    case ins
    have dl: "distinct (map fst ls)"
      using ins(3) d by (auto simp: distinct_delete)
    have sub: "map_of ls k = Some (e, n) \<Longrightarrow> map_of (cache_lines c) k = Some (e, n)" for k e n
      using ins(3) by (auto simp: delete_conv' split: if_splits)
    have d': "distinct (map fst (cache_lines c'))"
      using dl by (simp add: ins(2) keys_increment_all distinct_update)
    have "map_of (memory_bus c') k = Some e" if "map_of (cache_lines c') k = Some (e, n)" for k e n
    proof (cases "k = a")
      case True
      with that have "e = v"
        by (simp add: ins(2) map_of_increment_all update_conv')
      then show ?thesis using ins(1) True by (simp add: ins(2) MemoryBus_read_def)
    next
      case False
      with that have "\<exists>m. map_of ls k = Some (e, m)"
        by (auto simp: ins(2) map_of_increment_all update_conv')
      then show ?thesis using sub old by (auto simp: ins(2))
    qed
    then show ?thesis using d' coherent_iff [OF d'] by blast
  qed
qed

lemma apply_ops_coherent:
  assumes "distinct (map fst (cache_lines c))" and "coherent c"
    and "apply_ops c ops = Inr c'"
  shows "distinct (map fst (cache_lines c')) \<and> coherent c'"
  using assms
proof (induction ops arbitrary: c)
  case Nil
  then show ?case by simp
next
  case (Cons x xs)
  from Cons.prems(3) obtain c1 where c1: "apply_op c x = Inr c1" and rest: "apply_ops c1 xs = Inr c'"
    by (auto split: sum.splits)
  have "distinct (map fst (cache_lines c1)) \<and> coherent c1"
  proof (cases x)
    case (Read a)
    with c1 obtain r where "Cache_read c a = Inr (r, c1)"
      by (cases "Cache_read c a") auto
    then show ?thesis using Cache_read_coherent Cons.prems(1,2) by blast
  next
    case (Write a v)
    with c1 have "c1 = Cache_write c a v" by simp
    then show ?thesis using Cache_write_coherent Cons.prems(1,2) by blast
  qed
  then show ?case using Cons.IH rest by blast
qed

text \<open>
  C10: in every state that a sequence of \<open>read\<close> and \<open>write\<close> calls reaches from
  the empty cache, each cache line holds the value that the memory bus currently
  holds at that address.
\<close>

theorem C10_cache_store_coherent:
  assumes "apply_ops (Cache_init cap bus) ops = Inr c'"
  shows "coherent c'"
proof -
  have "distinct (map fst (cache_lines (Cache_init cap bus)))"
    and "coherent (Cache_init cap bus)"
    by (simp_all add: Cache_init_def coherent_def)
  then show ?thesis using apply_ops_coherent assms by blast
qed

theorem C10_cache_store_coherent_witness:
  "apply_ops (Cache_init 2 [(1, 10), (2, 20), (3, 30)])
       [Read 1, Write 1 11, Write 4 40, Read 2, Read 4] =
     Inr \<lparr>capacity = 2, memory_bus = [(1, 11), (2, 20), (3, 30), (4, 40)],
          cache_lines = [(2, 20, 2), (4, 40, 1)]\<rparr>
   \<and> coherent \<lparr>capacity = 2, memory_bus = [(1, 11), (2, 20), (3, 30), (4, 40)],
          cache_lines = [(2, 20, 2), (4, 40, 1)]\<rparr>"
proof -
  have h: "apply_ops (Cache_init 2 [(1, 10), (2, 20), (3, 30)])
       [Read 1, Write 1 11, Write 4 40, Read 2, Read 4] =
     Inr \<lparr>capacity = 2, memory_bus = [(1, 11), (2, 20), (3, 30), (4, 40)],
          cache_lines = [(2, 20, 2), (4, 40, 1)]\<rparr>"
    by (simp add: cache_eval)
  show ?thesis using h C10_cache_store_coherent [OF h] by simp
qed

section \<open>The fetch-execute loop\<close>

lemma fetch_instruction_keeps:
  assumes "fetch_instruction s = Inr (x, s1)"
  shows "instructions s1 = instructions s \<and> running s1 = running s"
  using assms by (auto simp: fetch_instruction_def split: if_splits sum.splits)

lemma fetch_instruction_None:
  assumes "fetch_instruction s = Inr (None, s1)"
  shows "s1 = s \<and> int (length (instructions s)) \<le> PC s"
  using assms by (auto simp: fetch_instruction_def split: if_splits sum.splits)

lemma fetch_instruction_Some:
  assumes "fetch_instruction s = Inr (Some i, s1)"
  shows "i \<in> set (instructions s)"
  using assms
  by (auto simp: fetch_instruction_def list_getitem_def split: if_splits)

lemma execute_instruction_keeps:
  assumes "execute_instruction s i = Inr s2"
  shows "instructions s2 = instructions s"
  using assms
  by (auto simp: execute_instruction_def Let_def
      split: if_splits list.splits option.splits sum.splits)

text \<open>
  C9: scenario B. Started with all registers 0 on the four instructions, \<open>run\<close>
  returns without raising after \<open>HALT\<close> has cleared \<open>running\<close>, with R1 = 5, R2 = 0,
  R3 = 5 and the program counter 3; the fourth instruction is never executed (R1
  would be 6). The cache is arbitrary.
\<close>

theorem C9_scenario_B:
  "run ((CPU_init c)\<lparr>instructions :=
          [''ADDI,R1,R2,5'', ''ADD,R3,R1,R2'', ''HALT'', ''ADDI,R1,R1,1'']\<rparr>) =
     Some (Inr \<lparr>cache = c, registers = [(''R1'', 5), (''R2'', 0), (''R3'', 5)], PC = 3,
                running = False,
                instructions = [''ADDI,R1,R2,5'', ''ADD,R3,R1,R2'', ''HALT'', ''ADDI,R1,R1,1''],
                printed = []\<rparr>)"
  by (simp add: run.simps cpu_eval)

text \<open>
  A destination outside R1, R2, R3 is not an error: \<open>ADDI,R9,R1,5\<close> stores 5 under
  the new key R9, and \<open>run\<close> goes on to \<open>HALT\<close> without raising.
\<close>

theorem C4_unknown_destination_counterexample:
  "map_of (registers (CPU_init (Cache_init 4 []))) ''R9'' = None
   \<and> execute_instruction (CPU_init (Cache_init 4 [])) ''ADDI,R9,R1,5'' =
       Inr \<lparr>cache = Cache_init 4 [],
            registers = [(''R1'', 0), (''R2'', 0), (''R3'', 0), (''R9'', 5)], PC = 0,
            running = True, instructions = [], printed = []\<rparr>
   \<and> run ((CPU_init (Cache_init 4 []))\<lparr>instructions := [''ADDI,R9,R1,5'', ''HALT'']\<rparr>) =
       Some (Inr \<lparr>cache = Cache_init 4 [],
            registers = [(''R1'', 0), (''R2'', 0), (''R3'', 0), (''R9'', 5)], PC = 2,
            running = False, instructions = [''ADDI,R9,R1,5'', ''HALT''], printed = []\<rparr>)"
  by (simp add: run.simps cpu_eval)

text \<open>
  C4, as the code has it, for an \<open>ADDI\<close> or \<open>ADD\<close> instruction written with its
  four comma-separated fields. A \<^emph>\<open>source\<close> register that is not a key of the
  register dictionary raises \<open>KeyError\<close> for that name (for \<open>ADD\<close> the first source is
  looked up first); the CPU is left as it was when the instruction started, so no
  register is created, and the exception leaves \<open>run\<close> as well when the instruction
  was fetched by it. The \<^emph>\<open>destination\<close> is never checked: when the sources are keys
  (and, for \<open>ADDI\<close>, \<open>int\<close> accepts the immediate) the instruction succeeds, the
  sum is stored under the destination name whether or not it was a key before, and
  every other register and field keeps its value.
\<close>

theorem C4_source_checked_destination_created:
  assumes parts: "split CHR '','' instruction = [opcode, dest, src1, x]"
  shows "(\<forall>r. (opcode = ''ADDI'' \<and> r = src1
               \<or> opcode = ''ADD'' \<and> (r = src1 \<or> map_of (registers s) src1 \<noteq> None \<and> r = x))
              \<and> map_of (registers s) r = None
            \<longrightarrow> execute_instruction s instruction = Inl (KeyError r, s)
                \<and> (\<forall>s0. running s0 \<and> fetch_instruction s0 = Inr (Some instruction, s)
                       \<longrightarrow> run s0 = Some (Inl (KeyError r, s))))
         \<and> (\<forall>a i. opcode = ''ADDI'' \<and> map_of (registers s) src1 = Some a \<and> py_int x = Inr i
            \<longrightarrow> (\<exists>s'. execute_instruction s instruction = Inr s'
                     \<and> s' = s\<lparr>registers := AList.update dest (a + i) (registers s)\<rparr>
                     \<and> map_of (registers s') dest = Some (a + i)
                     \<and> (\<forall>q. q \<noteq> dest \<longrightarrow> map_of (registers s') q = map_of (registers s) q)))
         \<and> (\<forall>a b. opcode = ''ADD'' \<and> map_of (registers s) src1 = Some a
                  \<and> map_of (registers s) x = Some b
            \<longrightarrow> (\<exists>s'. execute_instruction s instruction = Inr s'
                     \<and> s' = s\<lparr>registers := AList.update dest (a + b) (registers s)\<rparr>
                     \<and> map_of (registers s') dest = Some (a + b)
                     \<and> (\<forall>q. q \<noteq> dest \<longrightarrow> map_of (registers s') q = map_of (registers s) q)))"
proof (intro conjI allI impI)
  fix r
  assume h: "(opcode = ''ADDI'' \<and> r = src1
               \<or> opcode = ''ADD'' \<and> (r = src1 \<or> map_of (registers s) src1 \<noteq> None \<and> r = x))
              \<and> map_of (registers s) r = None"
  show ex: "execute_instruction s instruction = Inl (KeyError r, s)"
    using parts h by (auto simp: execute_instruction_def)
  have ne: "instruction \<noteq> []"
    using parts h by auto
  fix s0
  assume "running s0 \<and> fetch_instruction s0 = Inr (Some instruction, s)"
  then show "run s0 = Some (Inl (KeyError r, s))"
    using ex ne by (subst run.simps) simp
next
  fix a i
  assume h: "opcode = ''ADDI'' \<and> map_of (registers s) src1 = Some a \<and> py_int x = Inr i"
  have "execute_instruction s instruction =
          Inr (s\<lparr>registers := AList.update dest (a + i) (registers s)\<rparr>)"
    using parts h by (simp add: execute_instruction_def)
  then show "\<exists>s'. execute_instruction s instruction = Inr s'
                     \<and> s' = s\<lparr>registers := AList.update dest (a + i) (registers s)\<rparr>
                     \<and> map_of (registers s') dest = Some (a + i)
                     \<and> (\<forall>q. q \<noteq> dest \<longrightarrow> map_of (registers s') q = map_of (registers s) q)"
    by (simp add: update_conv')
next
  fix a b
  assume h: "opcode = ''ADD'' \<and> map_of (registers s) src1 = Some a
                  \<and> map_of (registers s) x = Some b"
  have "execute_instruction s instruction =
          Inr (s\<lparr>registers := AList.update dest (a + b) (registers s)\<rparr>)"
    using parts h by (simp add: execute_instruction_def)
  then show "\<exists>s'. execute_instruction s instruction = Inr s'
                     \<and> s' = s\<lparr>registers := AList.update dest (a + b) (registers s)\<rparr>
                     \<and> map_of (registers s') dest = Some (a + b)
                     \<and> (\<forall>q. q \<noteq> dest \<longrightarrow> map_of (registers s') q = map_of (registers s) q)"
    by (simp add: update_conv')
qed

theorem C4_source_checked_destination_created_witness:
  "split CHR '','' ''ADD,R1,R2,R7'' = [''ADD'', ''R1'', ''R2'', ''R7'']
   \<and> map_of [(''R1'', 0::int), (''R2'', 0), (''R3'', 0)] ''R2'' \<noteq> None
   \<and> map_of [(''R1'', 0::int), (''R2'', 0), (''R3'', 0)] ''R7'' = None
   \<and> execute_instruction
        \<lparr>cache = Cache_init 4 [], registers = [(''R1'', 0), (''R2'', 0), (''R3'', 0)],
         PC = 1, running = True, instructions = [''ADD,R1,R2,R7'', ''HALT''], printed = []\<rparr>
        ''ADD,R1,R2,R7'' =
       Inl (KeyError ''R7'',
        \<lparr>cache = Cache_init 4 [], registers = [(''R1'', 0), (''R2'', 0), (''R3'', 0)],
         PC = 1, running = True, instructions = [''ADD,R1,R2,R7'', ''HALT''], printed = []\<rparr>)
   \<and> run ((CPU_init (Cache_init 4 []))\<lparr>instructions := [''ADD,R1,R2,R7'', ''HALT'']\<rparr>) =
       Some (Inl (KeyError ''R7'',
        \<lparr>cache = Cache_init 4 [], registers = [(''R1'', 0), (''R2'', 0), (''R3'', 0)],
         PC = 1, running = True, instructions = [''ADD,R1,R2,R7'', ''HALT''], printed = []\<rparr>))
   \<and> split CHR '','' ''ADDI,R9,R1,5'' = [''ADDI'', ''R9'', ''R1'', ''5'']
   \<and> map_of [(''R1'', 7::int), (''R2'', 0), (''R3'', 0)] ''R1'' = Some 7
   \<and> map_of [(''R1'', 7::int), (''R2'', 0), (''R3'', 0)] ''R9'' = None
   \<and> py_int ''5'' = Inr 5
   \<and> execute_instruction
        \<lparr>cache = Cache_init 4 [], registers = [(''R1'', 7), (''R2'', 0), (''R3'', 0)],
         PC = 1, running = True, instructions = [''ADDI,R9,R1,5''], printed = []\<rparr>
        ''ADDI,R9,R1,5'' =
       Inr \<lparr>cache = Cache_init 4 [],
            registers = [(''R1'', 7), (''R2'', 0), (''R3'', 0), (''R9'', 12)],
            PC = 1, running = True, instructions = [''ADDI,R9,R1,5''], printed = []\<rparr>
   \<and> split CHR '','' ''ADD,R8,R1,R2'' = [''ADD'', ''R8'', ''R1'', ''R2'']
   \<and> map_of [(''R1'', 7::int), (''R2'', 4), (''R3'', 0)] ''R1'' = Some 7
   \<and> map_of [(''R1'', 7::int), (''R2'', 4), (''R3'', 0)] ''R2'' = Some 4
   \<and> map_of [(''R1'', 7::int), (''R2'', 4), (''R3'', 0)] ''R8'' = None
   \<and> execute_instruction
        \<lparr>cache = Cache_init 4 [], registers = [(''R1'', 7), (''R2'', 4), (''R3'', 0)],
         PC = 1, running = True, instructions = [''ADD,R8,R1,R2''], printed = []\<rparr>
        ''ADD,R8,R1,R2'' =
       Inr \<lparr>cache = Cache_init 4 [],
            registers = [(''R1'', 7), (''R2'', 4), (''R3'', 0), (''R8'', 11)],
            PC = 1, running = True, instructions = [''ADD,R8,R1,R2''], printed = []\<rparr>"
proof -
  let ?st = "\<lparr>cache = Cache_init 4 [], registers = [(''R1'', 0), (''R2'', 0), (''R3'', 0)],
         PC = 1, running = True, instructions = [''ADD,R1,R2,R7'', ''HALT''], printed = []\<rparr>"
  let ?start = "(CPU_init (Cache_init 4 []))\<lparr>instructions := [''ADD,R1,R2,R7'', ''HALT'']\<rparr>"
  let ?addi = "\<lparr>cache = Cache_init 4 [], registers = [(''R1'', 7), (''R2'', 0), (''R3'', 0)],
         PC = 1, running = True, instructions = [''ADDI,R9,R1,5''], printed = []\<rparr>"
  let ?add = "\<lparr>cache = Cache_init 4 [], registers = [(''R1'', 7), (''R2'', 4), (''R3'', 0)],
         PC = 1, running = True, instructions = [''ADD,R8,R1,R2''], printed = []\<rparr>"
  have p1: "split CHR '','' ''ADD,R1,R2,R7'' = [''ADD'', ''R1'', ''R2'', ''R7'']" by simp
  have which: "(''ADD'' = ''ADDI'' \<and> ''R7'' = ''R2''
      \<or> ''ADD'' = ''ADD''
          \<and> (''R7'' = ''R2'' \<or> map_of (registers ?st) ''R2'' \<noteq> None \<and> ''R7'' = ''R7''))
      \<and> map_of (registers ?st) ''R7'' = None"
    by simp
  have known: "map_of (registers ?st) ''R2'' \<noteq> None" by simp
  have fetch: "running ?start \<and> fetch_instruction ?start = Inr (Some ''ADD,R1,R2,R7'', ?st)"
    by (simp add: fetch_instruction_def list_getitem_def CPU_init_def)
  note src0 = C4_source_checked_destination_created
    [OF p1, of ?st, THEN conjunct1, rule_format, OF which]
  have src: "execute_instruction ?st ''ADD,R1,R2,R7'' = Inl (KeyError ''R7'', ?st)
      \<and> run ?start = Some (Inl (KeyError ''R7'', ?st))"
    using src0 [THEN conjunct1] src0 [THEN conjunct2, rule_format, OF fetch] by (rule conjI)
  have p2: "split CHR '','' ''ADDI,R9,R1,5'' = [''ADDI'', ''R9'', ''R1'', ''5'']" by simp
  have h2: "''ADDI'' = ''ADDI'' \<and> map_of (registers ?addi) ''R1'' = Some 7
      \<and> py_int ''5'' = Inr 5"
    by (simp add: cpu_eval)
  have fresh2: "map_of (registers ?addi) ''R9'' = None" by simp
  from C4_source_checked_destination_created
    [OF p2, of ?addi, THEN conjunct2, THEN conjunct1, rule_format, OF h2]
  have "execute_instruction ?addi ''ADDI,R9,R1,5'' =
          Inr (?addi\<lparr>registers := AList.update ''R9'' (7 + 5) (registers ?addi)\<rparr>)"
    by (elim exE conjE) (simp only:)
  then have addi: "execute_instruction ?addi ''ADDI,R9,R1,5'' =
          Inr \<lparr>cache = Cache_init 4 [],
            registers = [(''R1'', 7), (''R2'', 0), (''R3'', 0), (''R9'', 12)],
            PC = 1, running = True, instructions = [''ADDI,R9,R1,5''], printed = []\<rparr>"
    by simp
  have p3: "split CHR '','' ''ADD,R8,R1,R2'' = [''ADD'', ''R8'', ''R1'', ''R2'']" by simp
  have h3: "''ADD'' = ''ADD'' \<and> map_of (registers ?add) ''R1'' = Some 7
      \<and> map_of (registers ?add) ''R2'' = Some 4"
    by simp
  have fresh3: "map_of (registers ?add) ''R8'' = None" by simp
  from C4_source_checked_destination_created
    [OF p3, of ?add, THEN conjunct2, THEN conjunct2, rule_format, OF h3]
  have "execute_instruction ?add ''ADD,R8,R1,R2'' =
          Inr (?add\<lparr>registers := AList.update ''R8'' (7 + 4) (registers ?add)\<rparr>)"
    by (elim exE conjE) (simp only:)
  then have add: "execute_instruction ?add ''ADD,R8,R1,R2'' =
          Inr \<lparr>cache = Cache_init 4 [],
            registers = [(''R1'', 7), (''R2'', 4), (''R3'', 0), (''R8'', 11)],
            PC = 1, running = True, instructions = [''ADD,R8,R1,R2''], printed = []\<rparr>"
    by simp
  from p1 which known src p2 h2 fresh2 addi p3 h3 fresh3 add show ?thesis
    by simp
qed

text \<open>
  When no instruction is the empty string, a \<open>run\<close> that returns without raising
  has stopped after \<open>HALT\<close> or with the program counter past the end.
\<close>

lemma run_returns_halted_or_exhausted:
  assumes "run s = Some (Inr s')" and "[] \<notin> set (instructions s)"
  shows "\<not> running s' \<or> int (length (instructions s')) \<le> PC s'"
proof -
  have "[] \<notin> set (instructions s) \<longrightarrow>
          (\<forall>s'. y = Inr s' \<longrightarrow> \<not> running s' \<or> int (length (instructions s')) \<le> PC s')"
    if "run s = Some y" for y
    using that
  proof (induction rule: run.raw_induct [rotated, consumes 1])
    case (1 f s y)
    show ?case
    proof (intro impI allI)
      fix s'
      assume ne: "[] \<notin> set (instructions s)" and y: "y = Inr s'"
      show "\<not> running s' \<or> int (length (instructions s')) \<le> PC s'"
      proof (cases "running s")
        case False
        with 1(2) y show ?thesis by simp
      next
        case True
        show ?thesis
        proof (cases "fetch_instruction s")
          case (Inl e)
          with 1(2) True y show ?thesis by simp
        next
          case (Inr p)
          obtain oi s1 where p: "p = (oi, s1)" by (cases p)
          show ?thesis
          proof (cases oi)
            case None
            with 1(2) True Inr p y have "s' = s1" by simp
            with fetch_instruction_None Inr p None show ?thesis by blast
          next
            case (Some i)
            have "i \<in> set (instructions s)"
              using fetch_instruction_Some Inr p Some by blast
            with ne have i: "i \<noteq> []" by auto
            have k1: "instructions s1 = instructions s"
              using fetch_instruction_keeps Inr p by blast
            show ?thesis
            proof (cases "execute_instruction s1 i")
              case (Inl e)
              with 1(2) True Inr p Some i y show ?thesis by simp
            next
              case s2: (Inr s2)
              have k2: "instructions s2 = instructions s"
                using execute_instruction_keeps s2 k1 by simp
              from 1(2) True Inr p Some i s2 have "f s2 = Some y" by simp
              from 1(1) [OF this] ne k2 y show ?thesis by simp
            qed
          qed
        qed
      qed
    qed
  qed
  with assms show ?thesis by blast
qed

text \<open>
  C5: the loop has a third way to stop. \<open>if instruction:\<close> is false for the empty
  string, so an empty instruction makes \<open>run\<close> return although no \<open>HALT\<close> was
  executed (\<open>running\<close> is still true) and the program counter, 2, is less than the
  length of the sequence, 3.
\<close>

theorem C5_empty_instruction_stops_run:
  "run ((CPU_init (Cache_init 4 []))\<lparr>instructions := [''ADDI,R1,R1,1'', '''', ''HALT'']\<rparr>) =
     Some (Inr \<lparr>cache = Cache_init 4 [], registers = [(''R1'', 1), (''R2'', 0), (''R3'', 0)],
                PC = 2, running = True,
                instructions = [''ADDI,R1,R1,1'', '''', ''HALT''], printed = []\<rparr>)"
  by (simp add: run.simps cpu_eval)

end
